theory Spec2Isabelle
  imports Main
begin

section \<open>Shader preprocessor of scripts/convert_shaders.py\<close>

text \<open>
  The class \<^verbatim>\<open>ShaderPreprocessor\<close> rewrites GLSL text with five calls of
  \<^verbatim>\<open>re.sub\<close>. Text is a \<open>string\<close> (code points 0 to 255). The file system
  and \<^verbatim>\<open>pathlib\<close> are not part of the repository: they are parameters of the
  model. Unbounded recursion through imports is modelled with fuel, a run that does not
  return being \<open>None\<close>; the interpreter's recursion limit is not modelled.
\<close>

subsection \<open>Character classes of the patterns\<close>

text \<open>
  For \<^verbatim>\<open>str\<close> patterns the classes are the Unicode ones; these are their
  members below code point 256.
  \<^verbatim>\<open>\s\<close>: the characters for which \<^verbatim>\<open>str.isspace\<close> holds.
\<close>

definition is_space :: "char \<Rightarrow> bool" where
  "is_space c \<longleftrightarrow>
     (let n = (of_char c :: nat) in
      (9 \<le> n \<and> n \<le> 13) \<or> (28 \<le> n \<and> n \<le> 32) \<or> n = 133 \<or> n = 160)"

text \<open>\<^verbatim>\<open>\d\<close>: the decimal digits.\<close>

definition is_digit :: "char \<Rightarrow> bool" where
  "is_digit c \<longleftrightarrow> (let n = (of_char c :: nat) in 48 \<le> n \<and> n \<le> 57)"

text \<open>\<^verbatim>\<open>\w\<close>: the characters for which \<^verbatim>\<open>str.isalnum\<close> holds, and the underscore.\<close>

definition is_word :: "char \<Rightarrow> bool" where
  "is_word c \<longleftrightarrow>
     (let n = (of_char c :: nat) in
      (48 \<le> n \<and> n \<le> 57) \<or> (65 \<le> n \<and> n \<le> 90) \<or> n = 95 \<or> (97 \<le> n \<and> n \<le> 122) \<or>
      n = 170 \<or> n = 178 \<or> n = 179 \<or> n = 181 \<or> n = 185 \<or> n = 186 \<or>
      (188 \<le> n \<and> n \<le> 190) \<or> (192 \<le> n \<and> n \<le> 214) \<or> (216 \<le> n \<and> n \<le> 246) \<or>
      248 \<le> n)"

subsection \<open>Strings\<close>

text \<open>\<^verbatim>\<open>s.startswith(p)\<close>\<close>

fun startswith :: "string \<Rightarrow> string \<Rightarrow> bool" where
  "startswith s [] = True"
| "startswith [] (p # ps) = False"
| "startswith (c # cs) (p # ps) = (c = p \<and> startswith cs ps)"

text \<open>
  \<^verbatim>\<open>s.replace(old, new)\<close> for a non-empty \<open>old\<close>: every occurrence found from
  left to right, the search resuming after each one.
\<close>

fun str_replace :: "string \<Rightarrow> string \<Rightarrow> string \<Rightarrow> string" where
  "str_replace [] old new = []"
| "str_replace (c # cs) old new =
     (if startswith (c # cs) old
      then new @ str_replace (drop (length old - 1) cs) old new
      else c # str_replace cs old new)"

text \<open>The decimal numeral that an f-string writes for a non-negative integer.\<close>

definition digit_char :: "nat \<Rightarrow> char" where
  "digit_char d = ''0123456789'' ! d"

fun str_of_nat :: "nat \<Rightarrow> string" where
  "str_of_nat n =
     (if n < 10 then [digit_char n] else str_of_nat (n div 10) @ [digit_char (n mod 10)])"

declare str_of_nat.simps [simp del]

subsection \<open>The five patterns\<close>

text \<open>
  Each pattern is a sequence of items of two kinds: a literal text, and a character class
  under \<^verbatim>\<open>+\<close>. \<open>backtrack\<close> matches such a sequence at the start of a text as the
  \<^verbatim>\<open>re\<close> module does. A literal must stand there. A repeated class takes the
  longest run of its characters first and, whenever the rest of the pattern fails behind
  the run, gives back one character at a time, down to a run of one. The result is the
  list of the lengths that the items have taken. No pattern looks behind the start, so
  the text before it does not matter.
\<close>

datatype atom = Lit string | Plus "char \<Rightarrow> bool"

fun backtrack :: "atom list \<Rightarrow> string \<Rightarrow> nat list option"
  and longest_first :: "(char \<Rightarrow> bool) \<Rightarrow> atom list \<Rightarrow> string \<Rightarrow> nat \<Rightarrow> nat list option"
where
  "backtrack [] s = Some []"
| "backtrack (Lit p # as) s =
     (if startswith s p then map_option (Cons (length p)) (backtrack as (drop (length p) s))
      else None)"
| "backtrack (Plus P # as) s = longest_first P as s (length (takeWhile P s))"
| "longest_first P as s 0 = None"
| "longest_first P as s (Suc k) =
     (case backtrack as (drop (Suc k) s) of
        Some ls \<Rightarrow> Some (Suc k # ls)
      | None \<Rightarrow> longest_first P as s k)"

text \<open>The piece of the text that item \<open>i\<close> of the pattern has taken (items count from 0).\<close>

definition group_of :: "string \<Rightarrow> nat list \<Rightarrow> nat \<Rightarrow> string" where
  "group_of s ls i = take (ls ! i) (drop (sum_list (take i ls)) s)"

text \<open>
  A matcher tries its pattern at the start of the text and returns group 1 (empty when the
  pattern has no group) and the length of the match.

  \<^verbatim>\<open>#version\s+\d+\<close>
\<close>

definition match_version :: "string \<Rightarrow> (string \<times> nat) option" where
  "match_version s =
     map_option (\<lambda>ls. ([], sum_list ls))
       (backtrack [Lit ''#version'', Plus is_space, Plus is_digit] s)"

text \<open>\<^verbatim>\<open>#moj_import\s+<([^>]+)>\<close>: the group is item 3.\<close>

definition match_import :: "string \<Rightarrow> (string \<times> nat) option" where
  "match_import s =
     map_option (\<lambda>ls. (group_of s ls 3, sum_list ls))
       (backtrack [Lit ''#moj_import'', Plus is_space, Lit ''<'', Plus (\<lambda>c. c \<noteq> CHR ''>''),
          Lit ''>''] s)"

text \<open>\<^verbatim>\<open>precision\s+\w+\s+\w+;\<close>\<close>

definition match_precision :: "string \<Rightarrow> (string \<times> nat) option" where
  "match_precision s =
     map_option (\<lambda>ls. ([], sum_list ls))
       (backtrack [Lit ''precision'', Plus is_space, Plus is_word, Plus is_space, Plus is_word,
          Lit '';''] s)"

text \<open>\<^verbatim>\<open>layout\(std140\)\s+uniform\s+(\w+)\<close>: the group is item 4.\<close>

definition match_layout :: "string \<Rightarrow> (string \<times> nat) option" where
  "match_layout s =
     map_option (\<lambda>ls. (group_of s ls 4, sum_list ls))
       (backtrack [Lit ''layout(std140)'', Plus is_space, Lit ''uniform'', Plus is_space,
          Plus is_word] s)"

text \<open>\<^verbatim>\<open>uniform\s+sampler2D\s+(\w+);\<close>: the group is item 4.\<close>

definition match_sampler :: "string \<Rightarrow> (string \<times> nat) option" where
  "match_sampler s =
     map_option (\<lambda>ls. (group_of s ls 4, sum_list ls))
       (backtrack [Lit ''uniform'', Plus is_space, Lit ''sampler2D'', Plus is_space,
          Plus is_word, Lit '';''] s)"

subsection \<open>\<^verbatim>\<open>re.sub\<close>\<close>

text \<open>
  \<^verbatim>\<open>re.sub(pattern, repl, text)\<close> scans the text once from left to right. Where
  the pattern matches, the replacement is written and the scan resumes after the match;
  elsewhere one character is copied. Replacements are not scanned again. Every pattern
  above matches at least one character, so \<open>drop (n - 1) cs\<close> is the text after a match
  of length \<open>n\<close> at \<open>c # cs\<close>.

  \<open>re_sub\<close> is the call with a replacement that depends on group 1 only (a constant or
  a template).
\<close>

fun re_sub :: "(string \<Rightarrow> (string \<times> nat) option) \<Rightarrow> (string \<Rightarrow> string) \<Rightarrow> string \<Rightarrow> string" where
  "re_sub m repl [] = []"
| "re_sub m repl (c # cs) =
     (case m (c # cs) of
        None \<Rightarrow> c # re_sub m repl cs
      | Some (g, n) \<Rightarrow> repl g @ re_sub m repl (drop (n - 1) cs))"

text \<open>
  \<open>re_sub_call\<close> is the call with a function as replacement: it is called at each match
  in turn, reads and updates the state of the preprocessor, and may not return.
\<close>

fun re_sub_call :: "(string \<Rightarrow> (string \<times> nat) option) \<Rightarrow> (string \<Rightarrow> 's \<Rightarrow> (string \<times> 's) option)
    \<Rightarrow> string \<Rightarrow> 's \<Rightarrow> (string \<times> 's) option" where
  "re_sub_call m f [] st = Some ([], st)"
| "re_sub_call m f (c # cs) st =
     (case m (c # cs) of
        None \<Rightarrow>
          (case re_sub_call m f cs st of
             None \<Rightarrow> None
           | Some (out, st') \<Rightarrow> Some (c # out, st'))
      | Some (g, n) \<Rightarrow>
          (case f g st of
             None \<Rightarrow> None
           | Some (r, st1) \<Rightarrow>
               (case re_sub_call m f (drop (n - 1) cs) st1 of
                  None \<Rightarrow> None
                | Some (out, st2) \<Rightarrow> Some (r @ out, st2))))"

subsection \<open>The preprocessor\<close>

text \<open>
  The fields that \<^verbatim>\<open>__init__\<close> sets and the methods update. \<open>assigned\<close> is a
  history variable, not a field of the class: the indices that \<^verbatim>\<open>add_binding\<close>
  has written, oldest first. No function reads it.
\<close>

record shader_preprocessor =
  included_files :: "string set"
  binding_counter :: nat
  assigned :: "nat list"

definition init :: shader_preprocessor where
  "init = \<lparr>included_files = {}, binding_counter = 0, assigned = []\<rparr>"

text \<open>
  What the file system holds at a path: nothing (\<^verbatim>\<open>exists()\<close> is false), a file
  whose \<^verbatim>\<open>open\<close> or \<^verbatim>\<open>read\<close> raises an exception with the given message, or a
  file with the given text.
\<close>

datatype entry = Missing | Unreadable string | Readable string

text \<open>
  \<^verbatim>\<open>add_binding\<close>, the replacement function of the fourth pass.
\<close>

definition add_binding :: "string \<Rightarrow> shader_preprocessor \<Rightarrow> (string \<times> shader_preprocessor) option" where
  "add_binding name st =
     (let binding = binding_counter st
      in Some (''layout(std140, binding='' @ str_of_nat binding @ '') uniform '' @ name,
               st\<lparr>binding_counter := binding_counter st + 1,
                  assigned := assigned st @ [binding]\<rparr>))"

definition sampler_comment :: "string \<Rightarrow> string" where
  "sampler_comment name = ''// SAMPLER: '' @ name @ '' - requires texture+sampler binding''"

text \<open>
  \<open>preprocess\<close>, \<open>preprocess_moj_imports\<close> and its inner function \<open>replace_import\<close>.
  \<open>inc filename\<close> is \<^verbatim>\<open>str(self.include_dir / filename)\<close> and \<open>fs\<close> is the file
  system. The first argument bounds the depth of nested imports; \<open>None\<close> says that
  the bound was reached. The \<^verbatim>\<open>try\<close> block holds the read and the recursive call;
  only the read can raise, and the handler turns its message into a comment.
\<close>

fun preprocess :: "nat \<Rightarrow> (string \<Rightarrow> string) \<Rightarrow> (string \<Rightarrow> entry) \<Rightarrow> string \<Rightarrow> shader_preprocessor
      \<Rightarrow> (string \<times> shader_preprocessor) option"
  and preprocess_moj_imports :: "nat \<Rightarrow> (string \<Rightarrow> string) \<Rightarrow> (string \<Rightarrow> entry) \<Rightarrow> string
      \<Rightarrow> shader_preprocessor \<Rightarrow> (string \<times> shader_preprocessor) option"
  and replace_import :: "nat \<Rightarrow> (string \<Rightarrow> string) \<Rightarrow> (string \<Rightarrow> entry) \<Rightarrow> string
      \<Rightarrow> shader_preprocessor \<Rightarrow> (string \<times> shader_preprocessor) option"
where
  "preprocess 0 inc fs source st = None"
| "preprocess (Suc k) inc fs source st =
     (case preprocess_moj_imports k inc fs (re_sub match_version (\<lambda>g. []) source) st of
        None \<Rightarrow> None
      | Some (source2, st2) \<Rightarrow>
          (case re_sub_call match_layout add_binding
                  (re_sub match_precision (\<lambda>g. []) source2) st2 of
             None \<Rightarrow> None
           | Some (source4, st4) \<Rightarrow>
               Some (re_sub match_sampler sampler_comment source4, st4)))"
| "preprocess_moj_imports k inc fs source st =
     re_sub_call match_import (\<lambda>g s. replace_import k inc fs g s) source
       (st\<lparr>included_files := {}\<rparr>)"
| "replace_import k inc fs import_path st =
     (if startswith import_path ''minecraft:'' then
        (let filename = str_replace import_path ''minecraft:'' [];
             full_path = inc filename
         in if full_path \<in> included_files st
            then Some (''// Already included: '' @ import_path @ [CHR 0x0A], st)
            else
              (case fs full_path of
                 Missing \<Rightarrow> Some (''// Missing import: '' @ import_path @ [CHR 0x0A], st)
               | Unreadable e \<Rightarrow>
                   Some (''// Error importing '' @ import_path @ '': '' @ e @ [CHR 0x0A],
                         st\<lparr>included_files := insert full_path (included_files st)\<rparr>)
               | Readable included_source \<Rightarrow>
                   (case preprocess k inc fs included_source
                           (st\<lparr>included_files := insert full_path (included_files st)\<rparr>) of
                      None \<Rightarrow> None
                    | Some (expanded, st') \<Rightarrow>
                        Some (''// Import: '' @ import_path @ [CHR 0x0A] @ expanded @ [CHR 0x0A],
                              st'))))
      else Some (''// Unknown import: '' @ import_path @ [CHR 0x0A], st))"


subsection \<open>Vocabulary of the properties\<close>

text \<open>\<^verbatim>\<open>p in s\<close>: the text \<open>s\<close> has an occurrence of \<open>p\<close>.\<close>

fun contains :: "string \<Rightarrow> string \<Rightarrow> bool" where
  "contains [] p = (p = [])"
| "contains (c # cs) p = (startswith (c # cs) p \<or> contains cs p)"

text \<open>The number of places of \<open>s\<close> where an occurrence of \<open>p\<close> starts.\<close>

fun occurrences :: "string \<Rightarrow> string \<Rightarrow> nat" where
  "occurrences [] p = (if p = [] then 1 else 0)"
| "occurrences (c # cs) p = (if startswith (c # cs) p then 1 else 0) + occurrences cs p"

text \<open>
  The text has the token \<open>a\<close>, then white space, then the token \<open>b\<close>.
\<close>

fun contains_tokens :: "string \<Rightarrow> string \<Rightarrow> string \<Rightarrow> bool" where
  "contains_tokens [] a b = False"
| "contains_tokens (c # cs) a b =
     ((startswith (c # cs) a \<and>
       takeWhile is_space (drop (length a) (c # cs)) \<noteq> [] \<and>
       startswith (dropWhile is_space (drop (length a) (c # cs))) b) \<or>
      contains_tokens cs a b)"

text \<open>The pattern of the matcher \<open>m\<close> matches nowhere in the text.\<close>

fun no_match :: "(string \<Rightarrow> (string \<times> nat) option) \<Rightarrow> string \<Rightarrow> bool" where
  "no_match m [] = True"
| "no_match m (c # cs) = (m (c # cs) = None \<and> no_match m cs)"

text \<open>
  The groups of the matches that \<open>re_sub\<close> and \<open>re_sub_call\<close> find in a text, in
  the order of the scan.
\<close>

fun scan_groups :: "(string \<Rightarrow> (string \<times> nat) option) \<Rightarrow> string \<Rightarrow> string list" where
  "scan_groups m [] = []"
| "scan_groups m (c # cs) =
     (case m (c # cs) of
        None \<Rightarrow> scan_groups m cs
      | Some (g, n) \<Rightarrow> g # scan_groups m (drop (n - 1) cs))"

text \<open>
  None of the keywords that start a match of the third, fourth or fifth pattern occurs
  in the text.
\<close>

definition keyword_free :: "string \<Rightarrow> bool" where
  "keyword_free t \<longleftrightarrow>
     \<not> contains t ''precision'' \<and> \<not> contains t ''layout(std140)'' \<and> \<not> contains t ''uniform''"






text \<open>
  Two states of the instance agree on the fields of the class, and two results agree on
  the text and on those fields: they may differ in the history only.
\<close>

definition same_fields :: "shader_preprocessor \<Rightarrow> shader_preprocessor \<Rightarrow> bool" where
  "same_fields s s2 \<longleftrightarrow>
     included_files s = included_files s2 \<and> binding_counter s = binding_counter s2"

definition same_result ::
  "(string \<times> shader_preprocessor) option \<Rightarrow> (string \<times> shader_preprocessor) option \<Rightarrow> bool" where
  "same_result a b =
     (case a of
        None \<Rightarrow> b = None
      | Some (out, s) \<Rightarrow>
          (case b of None \<Rightarrow> False | Some (out2, s2) \<Rightarrow> out = out2 \<and> same_fields s s2))"

subsection \<open>Include roots used in the examples\<close>

text \<open>The include root \<^verbatim>\<open>include\<close>, for file names that are relative and plain.\<close>

definition include_dir :: "string \<Rightarrow> string" where
  "include_dir filename = ''include/'' @ filename"

definition no_files :: "string \<Rightarrow> entry" where
  "no_files p = Missing"


text \<open>\<^verbatim>\<open>b.glsl\<close> and \<^verbatim>\<open>c.glsl\<close> both import \<^verbatim>\<open>d.glsl\<close>.\<close>

definition fs_diamond :: "string \<Rightarrow> entry" where
  "fs_diamond p =
     (if p = ''include/b.glsl'' then Readable ''#moj_import <minecraft:d.glsl>''
      else if p = ''include/c.glsl'' then Readable ''#moj_import <minecraft:d.glsl>''
      else if p = ''include/d.glsl'' then Readable ''float d;''
      else Missing)"

text \<open>One file that declares a uniform block.\<close>

definition fs_bar :: "string \<Rightarrow> entry" where
  "fs_bar p =
     (if p = ''include/bar.glsl'' then Readable ''layout(std140) uniform Bar { };''
      else Missing)"



section \<open>Tools\<close>

lemmas class_defs = is_space_def is_digit_def is_word_def

subsection \<open>Characters and strings\<close>

lemma digit_not_space: "is_digit c \<Longrightarrow> \<not> is_space c"
  by (auto simp: class_defs Let_def)



lemma digit_char_is_digit: "d < 10 \<Longrightarrow> is_digit (digit_char d)"
proof -
  assume "d < 10"
  then have "d \<in> {0, 1, 2, 3, 4, 5, 6, 7, 8, 9}" by auto
  then show ?thesis by (auto simp: digit_char_def is_digit_def)
qed

lemma str_of_nat_digits: "\<forall>c\<in>set (str_of_nat n). is_digit c"
proof (induction n rule: str_of_nat.induct)
  case (1 n)
  show ?case
  proof (cases "n < 10")
    case True
    then show ?thesis by (subst str_of_nat.simps) (simp add: digit_char_is_digit)
  next
    case False
    with 1 show ?thesis by (subst str_of_nat.simps) (simp add: digit_char_is_digit)
  qed
qed



lemma startswith_decomp: "startswith u p \<Longrightarrow> u = p @ drop (length p) u"
  by (induction u p rule: startswith.induct) auto


subsection \<open>Matching without going back\<close>

text \<open>
  In each pattern a repeated class is followed by a character outside the class, or by the
  end of the pattern. A shorter run then leaves a character of the class in front of the
  rest of the pattern, which fails there: only the longest run can lead to a match.
\<close>

lemma longest_first_short:
  assumes fail: "\<And>t. t \<noteq> [] \<Longrightarrow> P (hd t) \<Longrightarrow> backtrack as t = None"
  shows "k < length (takeWhile P s) \<Longrightarrow> longest_first P as s k = None"
proof (induction k)
  case 0
  show ?case by simp
next
  case (Suc k)
  let ?t = "drop (Suc k) s"
  from Suc.prems have lt: "Suc k < length s"
    using length_takeWhile_le [of P s] by linarith
  then have ne: "?t \<noteq> []" by simp
  have "hd ?t = s ! Suc k" using lt by (simp add: hd_drop_conv_nth)
  also have "\<dots> = takeWhile P s ! Suc k" using Suc.prems by (simp add: takeWhile_nth)
  finally have "hd ?t \<in> set (takeWhile P s)" using Suc.prems by (metis nth_mem)
  then have "P (hd ?t)" by (rule set_takeWhileD [THEN conjunct2])
  from fail [OF ne this] Suc show ?case by simp
qed

lemma backtrack_plus:
  assumes fail: "\<And>t. t \<noteq> [] \<Longrightarrow> P (hd t) \<Longrightarrow> backtrack as t = None"
  shows "backtrack (Plus P # as) s =
         (if takeWhile P s = [] then None
          else map_option (Cons (length (takeWhile P s))) (backtrack as (dropWhile P s)))"
proof (cases "length (takeWhile P s)")
  case 0
  then show ?thesis by simp
next
  case (Suc j)
  have d: "drop (Suc j) s = dropWhile P s" using Suc by (metis dropWhile_eq_drop)
  have "longest_first P as s j = None"
    by (rule longest_first_short [OF fail]) (use Suc in simp_all)
  with Suc d show ?thesis by (auto split: option.splits)
qed

lemma backtrack_plus_last:
  "backtrack [Plus P] s =
   (if takeWhile P s = [] then None else Some [length (takeWhile P s)])"
  by (cases "length (takeWhile P s)") auto

lemma lit_fails:
  assumes "p \<noteq> []" "\<not> P (hd p)" "t \<noteq> []" "P (hd t)"
  shows "backtrack (Lit p # as) t = None"
proof -
  have "\<not> startswith t p" using assms by (cases t; cases p) auto
  then show ?thesis by simp
qed

lemma plus_fails:
  assumes "\<And>c. P c \<Longrightarrow> \<not> Q c" "t \<noteq> []" "P (hd t)"
  shows "backtrack (Plus Q # as) t = None"
proof -
  have "takeWhile Q t = []" using assms by (cases t) auto
  then show ?thesis by simp
qed

lemma space_not_word: "is_space c \<Longrightarrow> \<not> is_word c"
  by (auto simp: class_defs Let_def)

lemma backtrack_lit:
  "length p = n \<Longrightarrow>
   backtrack (Lit p # as) s =
     (if startswith s p then map_option (Cons n) (backtrack as (drop n s)) else None)"
  by auto

lemma backtrack_space_word:
  "backtrack (Plus is_space # Plus is_word # as) t =
     (if takeWhile is_space t = [] then None
      else map_option (Cons (length (takeWhile is_space t)))
             (backtrack (Plus is_word # as) (dropWhile is_space t)))"
  by (rule backtrack_plus, rule plus_fails [where P = is_space]) (auto dest: space_not_word)

lemma backtrack_word_space:
  "backtrack (Plus is_word # Plus is_space # as) t =
     (if takeWhile is_word t = [] then None
      else map_option (Cons (length (takeWhile is_word t)))
             (backtrack (Plus is_space # as) (dropWhile is_word t)))"
  by (rule backtrack_plus, rule plus_fails [where P = is_word]) (auto dest: space_not_word)

lemma backtrack_word_semicolon:
  "backtrack [Plus is_word, Lit '';''] t =
     (if takeWhile is_word t = [] then None
      else map_option (Cons (length (takeWhile is_word t)))
             (backtrack [Lit '';''] (dropWhile is_word t)))"
  by (rule backtrack_plus, rule lit_fails [where P = is_word]) (auto simp: is_word_def)

lemma backtrack_semicolon:
  "backtrack [Lit '';''] t = (if startswith t '';'' then Some [1] else None)"
  by simp

text \<open>
  So each matcher is computed by taking the longest runs, without going back.
\<close>

lemma match_version_greedy:
  "match_version s =
     (if startswith s ''#version'' then
        (let r = drop 8 s;
             ws = takeWhile is_space r;
             ds = takeWhile is_digit (dropWhile is_space r)
         in if ws \<noteq> [] \<and> ds \<noteq> [] then Some ([], 8 + length ws + length ds) else None)
      else None)"
proof -
  have l: "backtrack (Lit ''#version'' # as) t =
      (if startswith t ''#version'' then map_option (Cons 8) (backtrack as (drop 8 t)) else None)"
    for as t
    by (rule backtrack_lit) simp
  have a: "backtrack [Plus is_space, Plus is_digit] t =
      (if takeWhile is_space t = [] then None
       else map_option (Cons (length (takeWhile is_space t)))
              (backtrack [Plus is_digit] (dropWhile is_space t)))" for t
    by (rule backtrack_plus, rule plus_fails [where P = is_space]) (auto dest: digit_not_space)
  show ?thesis
    by (simp add: match_version_def l a backtrack_plus_last Let_def del: backtrack.simps)
qed

lemma match_import_greedy:
  "match_import s =
     (if startswith s ''#moj_import'' then
        (let r = drop 11 s;
             ws = takeWhile is_space r;
             r1 = dropWhile is_space r
         in if ws \<noteq> [] \<and> startswith r1 ''<'' then
              (let g = takeWhile (\<lambda>c. c \<noteq> CHR ''>'') (drop 1 r1);
                   r2 = dropWhile (\<lambda>c. c \<noteq> CHR ''>'') (drop 1 r1)
               in if g \<noteq> [] \<and> startswith r2 ''>''
                  then Some (g, 11 + length ws + 1 + length g + 1) else None)
            else None)
      else None)"
proof -
  let ?ng = "\<lambda>c. c \<noteq> CHR ''>''"
  have l1: "backtrack (Lit ''#moj_import'' # as) t =
      (if startswith t ''#moj_import'' then map_option (Cons 11) (backtrack as (drop 11 t))
       else None)" for as t
    by (rule backtrack_lit) simp
  have l2: "backtrack (Lit ''<'' # as) t =
      (if startswith t ''<'' then map_option (Cons 1) (backtrack as (drop 1 t)) else None)"
    for as t
    by (rule backtrack_lit) simp
  have l3: "backtrack [Lit ''>''] t = (if startswith t ''>'' then Some [1] else None)" for t
    by simp
  have a: "backtrack (Plus is_space # Lit ''<'' # as) t =
      (if takeWhile is_space t = [] then None
       else map_option (Cons (length (takeWhile is_space t)))
              (backtrack (Lit ''<'' # as) (dropWhile is_space t)))" for as t
    by (rule backtrack_plus, rule lit_fails [where P = is_space]) (auto simp: is_space_def)
  have b: "backtrack [Plus ?ng, Lit ''>''] t =
      (if takeWhile ?ng t = [] then None
       else map_option (Cons (length (takeWhile ?ng t)))
              (backtrack [Lit ''>''] (dropWhile ?ng t)))" for t
    by (rule backtrack_plus, rule lit_fails [where P = ?ng]) auto
  let ?X = "drop (Suc 0) (dropWhile is_space (drop 11 s))"
  have X: "?X = drop (11 + length (takeWhile is_space (drop 11 s)) + 1) s"
    by (simp add: dropWhile_eq_drop add.commute)
  have "group_of s [11, length (takeWhile is_space (drop 11 s)), Suc 0,
          length (takeWhile ?ng ?X), Suc 0] 3 =
        take (length (takeWhile ?ng ?X)) ?X"
    unfolding X by (simp add: group_of_def numeral_3_eq_3)
  also have "\<dots> = takeWhile ?ng ?X" by (rule takeWhile_eq_take [symmetric])
  finally have g: "group_of s [11, length (takeWhile is_space (drop 11 s)), Suc 0,
          length (takeWhile ?ng ?X), Suc 0] 3 = takeWhile ?ng ?X" .
  show ?thesis
    by (simp add: match_import_def l1 l2 l3 a b g Let_def del: backtrack.simps)
qed

lemma match_precision_greedy:
  "match_precision s =
     (if startswith s ''precision'' then
        (let r = drop 9 s;
             ws1 = takeWhile is_space r;
             r1 = dropWhile is_space r;
             w1 = takeWhile is_word r1;
             r2 = dropWhile is_word r1;
             ws2 = takeWhile is_space r2;
             r3 = dropWhile is_space r2;
             w2 = takeWhile is_word r3;
             r4 = dropWhile is_word r3
         in if ws1 \<noteq> [] \<and> w1 \<noteq> [] \<and> ws2 \<noteq> [] \<and> w2 \<noteq> [] \<and> startswith r4 '';''
            then Some ([], 9 + length ws1 + length w1 + length ws2 + length w2 + 1)
            else None)
      else None)"
proof -
  have l: "backtrack (Lit ''precision'' # as) t =
      (if startswith t ''precision'' then map_option (Cons 9) (backtrack as (drop 9 t))
       else None)" for as t
    by (rule backtrack_lit) simp
  show ?thesis
    by (simp add: match_precision_def l backtrack_space_word backtrack_word_space
        backtrack_word_semicolon backtrack_semicolon Let_def del: backtrack.simps)
qed

lemma match_layout_greedy:
  "match_layout s =
     (if startswith s ''layout(std140)'' then
        (let r = drop 14 s;
             ws1 = takeWhile is_space r;
             r1 = dropWhile is_space r
         in if ws1 \<noteq> [] \<and> startswith r1 ''uniform'' then
              (let r2 = drop 7 r1;
                   ws2 = takeWhile is_space r2;
                   g = takeWhile is_word (dropWhile is_space r2)
               in if ws2 \<noteq> [] \<and> g \<noteq> []
                  then Some (g, 14 + length ws1 + 7 + length ws2 + length g) else None)
            else None)
      else None)"
proof -
  have l1: "backtrack (Lit ''layout(std140)'' # as) t =
      (if startswith t ''layout(std140)'' then map_option (Cons 14) (backtrack as (drop 14 t))
       else None)" for as t
    by (rule backtrack_lit) simp
  have l2: "backtrack (Lit ''uniform'' # as) t =
      (if startswith t ''uniform'' then map_option (Cons 7) (backtrack as (drop 7 t))
       else None)" for as t
    by (rule backtrack_lit) simp
  have a: "backtrack (Plus is_space # Lit ''uniform'' # as) t =
      (if takeWhile is_space t = [] then None
       else map_option (Cons (length (takeWhile is_space t)))
              (backtrack (Lit ''uniform'' # as) (dropWhile is_space t)))" for as t
    by (rule backtrack_plus, rule lit_fails [where P = is_space]) (auto simp: is_space_def)
  let ?r1 = "dropWhile is_space (drop 14 s)"
  let ?X = "dropWhile is_space (drop 7 ?r1)"
  let ?a = "length (takeWhile is_space (drop 14 s))"
  let ?b = "length (takeWhile is_space (drop 7 ?r1))"
  have r1: "?r1 = drop (14 + ?a) s"
    by (simp add: dropWhile_eq_drop add.commute)
  have X: "?X = drop (14 + ?a + 7 + ?b) s"
    unfolding r1 by (simp add: dropWhile_eq_drop add.commute add.left_commute)
  have "group_of s [14, ?a, 7, ?b, length (takeWhile is_word ?X)] 4 =
        take (length (takeWhile is_word ?X)) (drop (14 + ?a + 7 + ?b) s)"
    by (simp add: group_of_def eval_nat_numeral)
  also have "\<dots> = takeWhile is_word ?X"
    unfolding X [symmetric] by (rule takeWhile_eq_take [symmetric])
  finally have g: "group_of s [14, ?a, 7, ?b, length (takeWhile is_word ?X)] 4 =
      takeWhile is_word ?X" .
  show ?thesis
    by (simp add: match_layout_def l1 l2 a backtrack_space_word backtrack_plus_last g Let_def
        del: backtrack.simps)
qed

lemma match_sampler_greedy:
  "match_sampler s =
     (if startswith s ''uniform'' then
        (let r = drop 7 s;
             ws1 = takeWhile is_space r;
             r1 = dropWhile is_space r
         in if ws1 \<noteq> [] \<and> startswith r1 ''sampler2D'' then
              (let r2 = drop 9 r1;
                   ws2 = takeWhile is_space r2;
                   r3 = dropWhile is_space r2;
                   g = takeWhile is_word r3;
                   r4 = dropWhile is_word r3
               in if ws2 \<noteq> [] \<and> g \<noteq> [] \<and> startswith r4 '';''
                  then Some (g, 7 + length ws1 + 9 + length ws2 + length g + 1) else None)
            else None)
      else None)"
proof -
  have l1: "backtrack (Lit ''uniform'' # as) t =
      (if startswith t ''uniform'' then map_option (Cons 7) (backtrack as (drop 7 t))
       else None)" for as t
    by (rule backtrack_lit) simp
  have l2: "backtrack (Lit ''sampler2D'' # as) t =
      (if startswith t ''sampler2D'' then map_option (Cons 9) (backtrack as (drop 9 t))
       else None)" for as t
    by (rule backtrack_lit) simp
  have a: "backtrack (Plus is_space # Lit ''sampler2D'' # as) t =
      (if takeWhile is_space t = [] then None
       else map_option (Cons (length (takeWhile is_space t)))
              (backtrack (Lit ''sampler2D'' # as) (dropWhile is_space t)))" for as t
    by (rule backtrack_plus, rule lit_fails [where P = is_space]) (auto simp: is_space_def)
  let ?r1 = "dropWhile is_space (drop 7 s)"
  let ?X = "dropWhile is_space (drop 9 ?r1)"
  let ?a = "length (takeWhile is_space (drop 7 s))"
  let ?b = "length (takeWhile is_space (drop 9 ?r1))"
  have r1: "?r1 = drop (7 + ?a) s"
    by (simp add: dropWhile_eq_drop add.commute)
  have X: "?X = drop (7 + ?a + 9 + ?b) s"
    unfolding r1 by (simp add: dropWhile_eq_drop add.commute add.left_commute)
  have "group_of s [7, ?a, 9, ?b, length (takeWhile is_word ?X), Suc 0] 4 =
        take (length (takeWhile is_word ?X)) (drop (7 + ?a + 9 + ?b) s)"
    by (simp add: group_of_def eval_nat_numeral)
  also have "\<dots> = takeWhile is_word ?X"
    unfolding X [symmetric] by (rule takeWhile_eq_take [symmetric])
  finally have g: "group_of s [7, ?a, 9, ?b, length (takeWhile is_word ?X), Suc 0] 4 =
      takeWhile is_word ?X" .
  show ?thesis
    by (simp add: match_sampler_def l1 l2 a backtrack_space_word backtrack_word_semicolon
        backtrack_semicolon g Let_def del: backtrack.simps)
qed

lemmas match_defs =
  match_version_greedy match_import_greedy match_precision_greedy match_layout_greedy
  match_sampler_greedy

subsection \<open>What a match needs\<close>

text \<open>
  A match starts with the first character of its pattern and with the keyword of the
  pattern; its group is a piece of the text.
\<close>

lemma match_version_first: "c \<noteq> CHR ''#'' \<Longrightarrow> match_version (c # cs) = None"
  by (simp add: match_version_greedy)


lemma match_needs_keyword:
  "match_version u \<noteq> None \<Longrightarrow> startswith u ''#version''"
  "match_precision u \<noteq> None \<Longrightarrow> startswith u ''precision''"
  "match_layout u \<noteq> None \<Longrightarrow> startswith u ''layout(std140)''"
  "match_sampler u \<noteq> None \<Longrightarrow> startswith u ''uniform''"
  by (auto simp: match_defs split: if_splits)

lemma digit_first:
  assumes "is_digit c"
  shows "match_precision (c # cs) = None" "match_layout (c # cs) = None"
    "match_sampler (c # cs) = None"
  using assms by (auto simp: match_defs is_digit_def)



text \<open>
  The version pattern at a directive, and the import pattern at a directive: the match
  ends at the first \<^verbatim>\<open>>\<close>, whatever follows.
\<close>

lemma match_version_directive:
  assumes "ws \<noteq> []" "\<forall>c\<in>set ws. is_space c" "ds \<noteq> []" "\<forall>c\<in>set ds. is_digit c"
    and "rest = [] \<or> \<not> is_digit (hd rest)"
  shows "match_version (''#version'' @ ws @ ds @ rest) = Some ([], 8 + length ws + length ds)"
proof -
  have d: "\<not> is_space (hd ds)" using assms(3,4) digit_not_space by (cases ds) auto
  have a: "takeWhile is_space (ws @ ds @ rest) = ws"
    using assms(2,3) d by (cases ds) (simp_all add: takeWhile_append2)
  have b: "dropWhile is_space (ws @ ds @ rest) = ds @ rest"
    using assms(2,3) d by (cases ds) (simp_all add: dropWhile_append2)
  have c: "takeWhile is_digit (ds @ rest) = ds"
    using assms(4,5) by (cases rest) (auto simp add: takeWhile_append2)
  show ?thesis
    using assms(1,3) by (simp add: match_version_greedy a b c)
qed

lemma match_import_shape:
  assumes "match_import u = Some (g, n)"
  shows "\<exists>ws rest. u = ''#moj_import'' @ ws @ ''<'' @ g @ ''>'' @ rest \<and> ws \<noteq> [] \<and>
           (\<forall>c\<in>set ws. is_space c) \<and> g \<noteq> [] \<and> CHR ''>'' \<notin> set g \<and>
           n = 11 + length ws + 1 + length g + 1"
proof -
  let ?r = "drop 11 u"
  let ?ws = "takeWhile is_space ?r"
  let ?r1 = "dropWhile is_space ?r"
  let ?g = "takeWhile (\<lambda>c. c \<noteq> CHR ''>'') (drop 1 ?r1)"
  let ?r2 = "dropWhile (\<lambda>c. c \<noteq> CHR ''>'') (drop 1 ?r1)"
  from assms have s: "startswith u ''#moj_import''" and ws: "?ws \<noteq> []"
    and lt: "startswith ?r1 ''<''" and g: "?g \<noteq> []" "g = ?g" and gt: "startswith ?r2 ''>''"
    and n: "n = 11 + length ?ws + 1 + length ?g + 1"
    by (auto simp: match_import_greedy Let_def split: if_splits)
  have len: "length ''#moj_import'' = 11" "length ''<'' = 1" "length ''>'' = 1" by simp_all
  from startswith_decomp [OF s] have u: "u = ''#moj_import'' @ ?r" by (simp only: len)
  have r: "?r = ?ws @ ?r1" by simp
  from startswith_decomp [OF lt] have r1: "?r1 = ''<'' @ drop 1 ?r1" by (simp only: len)
  have d: "drop 1 ?r1 = ?g @ ?r2" by simp
  from startswith_decomp [OF gt] have r2: "?r2 = ''>'' @ drop 1 ?r2" by (simp only: len)
  have "u = ''#moj_import'' @ ?ws @ ''<'' @ ?g @ ''>'' @ drop 1 ?r2"
    using u r r1 d r2 by (metis append_assoc)
  moreover have "\<forall>c\<in>set ?ws. is_space c" by (auto dest: set_takeWhileD)
  moreover have "CHR ''>'' \<notin> set ?g" by (auto dest: set_takeWhileD)
  ultimately show ?thesis using ws g n by blast
qed




text \<open>
  A match takes at least one character and stays within the text.
\<close>

lemma startswith_length: "startswith s p \<Longrightarrow> length p \<le> length s"
  by (induction s p rule: startswith.induct) auto

lemma length_takeWhile_drop:
  "length (takeWhile P xs) + length (dropWhile P xs) = length xs"
  by (metis length_append takeWhile_dropWhile_id)

lemma match_version_length:
  assumes "match_version s = Some (g, n)"
  shows "0 < n \<and> n \<le> length s"
proof -
  let ?r = "drop 8 s"
  from assms have s: "startswith s ''#version''"
    and n: "n = 8 + length (takeWhile is_space ?r) +
              length (takeWhile is_digit (dropWhile is_space ?r))"
    by (auto simp: match_version_greedy Let_def split: if_splits)
  from startswith_length [OF s] have "8 \<le> length s" by simp
  moreover have "length (takeWhile is_digit (dropWhile is_space ?r)) \<le>
      length (dropWhile is_space ?r)"
    by (rule length_takeWhile_le)
  moreover have "length (takeWhile is_space ?r) + length (dropWhile is_space ?r) = length s - 8"
    by (simp add: length_takeWhile_drop)
  ultimately show ?thesis using n by linarith
qed

lemma match_import_length:
  assumes "match_import s = Some (g, n)"
  shows "0 < n \<and> n \<le> length s"
  using match_import_shape [OF assms] by auto

lemma match_precision_length:
  assumes "match_precision s = Some (g, n)"
  shows "0 < n \<and> n \<le> length s"
proof -
  let ?r = "drop 9 s"
  let ?r1 = "dropWhile is_space ?r"
  let ?r2 = "dropWhile is_word ?r1"
  let ?r3 = "dropWhile is_space ?r2"
  let ?r4 = "dropWhile is_word ?r3"
  from assms have s: "startswith s ''precision''" and e: "startswith ?r4 '';''"
    and n: "n = 9 + length (takeWhile is_space ?r) + length (takeWhile is_word ?r1) +
              length (takeWhile is_space ?r2) + length (takeWhile is_word ?r3) + 1"
    by (auto simp: match_precision_greedy Let_def split: if_splits)
  from startswith_length [OF s] have "9 \<le> length s" by simp
  moreover from startswith_length [OF e] have "1 \<le> length ?r4" by simp
  moreover have "length (takeWhile is_space ?r) + length ?r1 = length s - 9"
    by (simp add: length_takeWhile_drop)
  moreover have "length (takeWhile is_word ?r1) + length ?r2 = length ?r1"
    by (rule length_takeWhile_drop)
  moreover have "length (takeWhile is_space ?r2) + length ?r3 = length ?r2"
    by (rule length_takeWhile_drop)
  moreover have "length (takeWhile is_word ?r3) + length ?r4 = length ?r3"
    by (rule length_takeWhile_drop)
  ultimately show ?thesis using n by linarith
qed

lemma match_layout_length:
  assumes "match_layout s = Some (g, n)"
  shows "0 < n \<and> n \<le> length s"
proof -
  let ?r = "drop 14 s"
  let ?r1 = "dropWhile is_space ?r"
  let ?r2 = "drop 7 ?r1"
  let ?r3 = "dropWhile is_space ?r2"
  from assms have s: "startswith s ''layout(std140)''" and u: "startswith ?r1 ''uniform''"
    and n: "n = 14 + length (takeWhile is_space ?r) + 7 + length (takeWhile is_space ?r2) +
              length (takeWhile is_word ?r3)"
    by (auto simp: match_layout_greedy Let_def split: if_splits)
  from startswith_length [OF s] have "14 \<le> length s" by simp
  moreover from startswith_length [OF u] have "7 \<le> length ?r1" by simp
  moreover have "length (takeWhile is_space ?r) + length ?r1 = length s - 14"
    by (simp add: length_takeWhile_drop)
  moreover have "length (takeWhile is_space ?r2) + length ?r3 = length ?r1 - 7"
    by (simp add: length_takeWhile_drop)
  moreover have "length (takeWhile is_word ?r3) \<le> length ?r3"
    by (rule length_takeWhile_le)
  ultimately show ?thesis using n by linarith
qed

lemma match_sampler_length:
  assumes "match_sampler s = Some (g, n)"
  shows "0 < n \<and> n \<le> length s"
proof -
  let ?r = "drop 7 s"
  let ?r1 = "dropWhile is_space ?r"
  let ?r2 = "drop 9 ?r1"
  let ?r3 = "dropWhile is_space ?r2"
  let ?r4 = "dropWhile is_word ?r3"
  from assms have s: "startswith s ''uniform''" and u: "startswith ?r1 ''sampler2D''"
    and e: "startswith ?r4 '';''"
    and n: "n = 7 + length (takeWhile is_space ?r) + 9 + length (takeWhile is_space ?r2) +
              length (takeWhile is_word ?r3) + 1"
    by (auto simp: match_sampler_greedy Let_def split: if_splits)
  from startswith_length [OF s] have "7 \<le> length s" by simp
  moreover from startswith_length [OF u] have "9 \<le> length ?r1" by simp
  moreover from startswith_length [OF e] have "1 \<le> length ?r4" by simp
  moreover have "length (takeWhile is_space ?r) + length ?r1 = length s - 7"
    by (simp add: length_takeWhile_drop)
  moreover have "length (takeWhile is_space ?r2) + length ?r3 = length ?r1 - 9"
    by (simp add: length_takeWhile_drop)
  moreover have "length (takeWhile is_word ?r3) + length ?r4 = length ?r3"
    by (rule length_takeWhile_drop)
  ultimately show ?thesis using n by linarith
qed

subsection \<open>The scan of \<^verbatim>\<open>re.sub\<close>\<close>

text \<open>
  Text without a match is copied.
\<close>

lemma re_sub_no_match: "no_match m s \<Longrightarrow> re_sub m repl s = s"
  by (induction s) auto

lemma re_sub_call_no_match: "no_match m s \<Longrightarrow> re_sub_call m f s st = Some (s, st)"
  by (induction s) auto

lemma no_match_version: "\<not> contains s ''#version'' \<Longrightarrow> no_match match_version s"
  by (induction s) (auto simp: match_version_greedy)

lemma no_match_import: "\<not> contains s ''#moj_import'' \<Longrightarrow> no_match match_import s"
  by (induction s) (auto simp: match_import_greedy)

lemma no_match_precision: "\<not> contains s ''precision'' \<Longrightarrow> no_match match_precision s"
  by (induction s) (auto simp: match_precision_greedy)

lemma no_match_layout:
  "\<not> contains_tokens s ''layout(std140)'' ''uniform'' \<Longrightarrow> no_match match_layout s"
  by (induction s) (auto simp: match_layout_greedy Let_def eval_nat_numeral)

lemma no_match_sampler:
  "\<not> contains_tokens s ''uniform'' ''sampler2D'' \<Longrightarrow> no_match match_sampler s"
  by (induction s) (auto simp: match_sampler_greedy Let_def eval_nat_numeral)

lemma no_hash_no_version: "CHR ''#'' \<notin> set s \<Longrightarrow> no_match match_version s"
  by (induction s) (auto simp: match_version_greedy)

lemma no_hash_no_import: "CHR ''#'' \<notin> set s \<Longrightarrow> no_match match_import s"
  by (induction s) (auto simp: match_import_greedy)

lemma keyword_no_match:
  assumes "\<And>u. m u \<noteq> None \<Longrightarrow> startswith u lit" and "\<not> contains t lit"
  shows "no_match m t"
  using assms(2)
proof (induction t)
  case Nil
  then show ?case by simp
next
  case (Cons c cs)
  have "m (c # cs) = None"
  proof (rule ccontr)
    assume "m (c # cs) \<noteq> None"
    from assms(1) [OF this] Cons.prems show False by simp
  qed
  with Cons show ?case by simp
qed

lemma keyword_free_no_match:
  assumes "keyword_free t"
  shows "no_match match_precision t" "no_match match_layout t" "no_match match_sampler t"
  using assms keyword_no_match [where t = t, OF match_needs_keyword(2)]
    keyword_no_match [where t = t, OF match_needs_keyword(3)]
    keyword_no_match [where t = t, OF match_needs_keyword(4)]
  by (simp_all add: keyword_free_def)

lemma preprocess_no_match:
  assumes "no_match match_version s" "no_match match_import s" "no_match match_precision s"
    "no_match match_layout s" "no_match match_sampler s"
  shows "preprocess (Suc k) inc fs s st = Some (s, st\<lparr>included_files := {}\<rparr>)"
  using assms by (simp add: re_sub_no_match re_sub_call_no_match)

text \<open>
  A match at the start of the text is replaced and the scan goes on behind it.
  Characters that start no match, and text without the keyword of the pattern that is
  followed by a character outside the keyword, are copied.
\<close>

lemma re_sub_match:
  assumes "m (pre @ rest) = Some (g, length pre)" "pre \<noteq> []"
  shows "re_sub m repl (pre @ rest) = repl g @ re_sub m repl rest"
  using assms by (cases pre) simp_all


lemma re_sub_skip_chars:
  "(\<And>c cs. c \<in> set d \<Longrightarrow> m (c # cs) = None) \<Longrightarrow> re_sub m r (d @ x) = d @ re_sub m r x"
  by (induction d) simp_all

lemma re_sub_call_skip_chars:
  "(\<And>c cs. c \<in> set d \<Longrightarrow> m (c # cs) = None) \<Longrightarrow>
   re_sub_call m f (d @ x) st =
     (case re_sub_call m f x st of None \<Rightarrow> None | Some (out, s) \<Rightarrow> Some (d @ out, s))"
  by (induction d) (auto split: option.splits)



lemma re_sub_precision_number:
  "re_sub match_precision r (str_of_nat n @ x) = str_of_nat n @ re_sub match_precision r x"
  by (rule re_sub_skip_chars) (use str_of_nat_digits digit_first in blast)

lemma re_sub_sampler_number:
  "re_sub match_sampler r (str_of_nat n @ x) = str_of_nat n @ re_sub match_sampler r x"
  by (rule re_sub_skip_chars) (use str_of_nat_digits digit_first in blast)

lemma re_sub_call_layout_number:
  "re_sub_call match_layout f (str_of_nat n @ x) st =
     (case re_sub_call match_layout f x st of
        None \<Rightarrow> None | Some (out, s) \<Rightarrow> Some (str_of_nat n @ out, s))"
  by (rule re_sub_call_skip_chars) (use str_of_nat_digits digit_first in blast)

lemmas eval_simps = match_defs class_defs add_binding_def sampler_comment_def Let_def
  re_sub_precision_number re_sub_sampler_number re_sub_call_layout_number



text \<open>
  \<open>re_sub_call\<close> returns when the replacement function returns at every match; a
  property that the replacement function keeps is kept by the scan; a replacement
  function that returns more often gives the same results where the first one returns.
\<close>

lemma re_sub_call_total:
  "(\<And>g s. f g s \<noteq> None) \<Longrightarrow> re_sub_call m f src st \<noteq> None"
proof (induction m f src st rule: re_sub_call.induct)
  case (1 m f st)
  then show ?case by simp
next
  case (2 m f c cs st)
  show ?case
  proof (cases "m (c # cs)")
    case None
    from "2.IH"(1) [OF None "2.prems"] show ?thesis using None by (auto split: option.splits)
  next
    case (Some gn)
    obtain g n where gn: "gn = (g, n)" by (cases gn)
    from "2.prems" [of g st] obtain r st1 where f: "f g st = Some (r, st1)" by auto
    from "2.IH"(2) [OF Some [unfolded gn] refl f refl "2.prems"]
    show ?thesis using Some gn f by (auto split: option.splits)
  qed
qed

lemma re_sub_call_returns:
  "(\<And>g s. g \<in> set (scan_groups m src) \<Longrightarrow> f g s \<noteq> None) \<Longrightarrow>
   re_sub_call m f src st \<noteq> None"
proof (induction m f src st rule: re_sub_call.induct)
  case (1 m f st)
  then show ?case by simp
next
  case (2 m f c cs st)
  show ?case
  proof (cases "m (c # cs)")
    case None
    have "re_sub_call m f cs st \<noteq> None"
      by (rule "2.IH"(1) [OF None]) (use "2.prems" None in simp)
    then show ?thesis using None by (auto split: option.splits)
  next
    case (Some gn)
    obtain g n where gn: "gn = (g, n)" by (cases gn)
    from "2.prems" [of g st] Some gn obtain r st1 where f: "f g st = Some (r, st1)" by auto
    have "re_sub_call m f (drop (n - 1) cs) st1 \<noteq> None"
      by (rule "2.IH"(2) [OF Some [unfolded gn] refl f refl]) (use "2.prems" Some gn in simp)
    then show ?thesis using Some gn f by (auto split: option.splits)
  qed
qed


lemma re_sub_call_mono:
  "(\<And>g s r. f g s = Some r \<Longrightarrow> f' g s = Some r) \<Longrightarrow>
   re_sub_call m f src st = Some res \<Longrightarrow> re_sub_call m f' src st = Some res"
proof (induction m f src st arbitrary: res rule: re_sub_call.induct)
  case (1 m f st)
  then show ?case by simp
next
  case (2 m f c cs st)
  note step = "2.prems"(1)
  show ?case
  proof (cases "m (c # cs)")
    case None
    with "2.prems"(2) obtain out1 st1 where
      r: "re_sub_call m f cs st = Some (out1, st1)" and o: "res = (c # out1, st1)"
      by (auto split: option.splits)
    from "2.IH"(1) [OF None step r] None o show ?thesis by simp
  next
    case (Some gn)
    obtain g n where gn: "gn = (g, n)" by (cases gn)
    from "2.prems"(2) Some gn obtain r st1 out1 st2 where
      f: "f g st = Some (r, st1)" and
      rest: "re_sub_call m f (drop (n - 1) cs) st1 = Some (out1, st2)" and
      o: "res = (r @ out1, st2)"
      by (auto split: option.splits)
    from "2.IH"(2) [OF Some [unfolded gn] refl f refl step rest] step [OF f] Some gn o
    show ?thesis by simp
  qed
qed

subsection \<open>The bound on the depth of imports\<close>

text \<open>
  A result does not depend on the bound: a larger bound gives the same result.
\<close>

lemma preprocess_more_fuel:
  "preprocess k inc fs source st = Some res \<Longrightarrow> preprocess (Suc k) inc fs source st = Some res"
proof (induction k arbitrary: source st res)
  case 0
  then show ?case by simp
next
  case (Suc k)
  have imp: "replace_import (Suc k) inc fs g s = Some r"
    if "replace_import k inc fs g s = Some r" for g s r
    using that Suc.IH
    by (auto simp: Let_def simp del: preprocess.simps
        split: if_splits entry.splits option.splits)
  from Suc.prems obtain s2 st2 where
    a: "re_sub_call match_import (replace_import k inc fs)
          (re_sub match_version (\<lambda>g. []) source) (st\<lparr>included_files := {}\<rparr>) = Some (s2, st2)"
    by (auto split: option.splits)
  from re_sub_call_mono [of "replace_import k inc fs" "replace_import (Suc k) inc fs", OF imp a]
  have "re_sub_call match_import (replace_import (Suc k) inc fs)
          (re_sub match_version (\<lambda>g. []) source) (st\<lparr>included_files := {}\<rparr>) = Some (s2, st2)" .
  with a Suc.prems show ?case by (simp del: replace_import.simps)
qed

lemma preprocess_fuel_mono:
  "k \<le> k' \<Longrightarrow> preprocess k inc fs source st = Some res \<Longrightarrow>
   preprocess k' inc fs source st = Some res"
  by (induction k' rule: dec_induct) (auto intro: preprocess_more_fuel simp del: preprocess.simps)

text \<open>
  When the imports are not cyclic, \<open>preprocess\<close> returns for a bound that is large
  enough. \<open>rank\<close> is any measure on texts that gets smaller from a text to each file
  that the text imports.
\<close>

lemma acyclic_imports_return:
  assumes rank: "\<And>t g t'.
      g \<in> set (scan_groups match_import (re_sub match_version (\<lambda>g. []) t)) \<Longrightarrow>
      fs (inc (str_replace g ''minecraft:'' [])) = Readable t' \<Longrightarrow> rank t' < rank t"
  shows "rank source < k \<Longrightarrow> preprocess k inc fs source st \<noteq> None"
proof (induction k arbitrary: source st)
  case 0
  then show ?case by simp
next
  case (Suc k)
  let ?s1 = "re_sub match_version (\<lambda>g. []) source"
  have "re_sub_call match_import (replace_import k inc fs) ?s1 (st\<lparr>included_files := {}\<rparr>) \<noteq> None"
  proof (rule re_sub_call_returns)
    fix g s assume g: "g \<in> set (scan_groups match_import ?s1)"
    show "replace_import k inc fs g s \<noteq> None"
    proof (cases "fs (inc (str_replace g ''minecraft:'' []))")
      case (Readable t')
      from rank [OF g Readable] Suc.prems have "rank t' < k" by simp
      from Suc.IH [OF this,
          of "s\<lparr>included_files := insert (inc (str_replace g ''minecraft:'' [])) (included_files s)\<rparr>"]
        Readable
      show ?thesis by (auto simp: Let_def split: option.splits)
    qed (auto simp: Let_def)
  qed
  then obtain s2 st2 where
    a: "re_sub_call match_import (replace_import k inc fs) ?s1 (st\<lparr>included_files := {}\<rparr>) =
          Some (s2, st2)" by auto
  have "re_sub_call match_layout add_binding (re_sub match_precision (\<lambda>g. []) s2) st2 \<noteq> None"
    by (rule re_sub_call_total) (simp add: add_binding_def Let_def)
  with a show ?case by (auto simp del: replace_import.simps split: option.splits)
qed

subsection \<open>The history variable\<close>

text \<open>
  \<open>assigned\<close> is not read: two runs from states that agree on the fields of the class
  return the same text and agree on those fields again, or both do not return.
\<close>

lemma same_result_cases:
  assumes "same_result a b"
  obtains "a = None" "b = None"
  | out s s2 where "a = Some (out, s)" "b = Some (out, s2)" "same_fields s s2"
  using assms by (auto simp: same_result_def split: option.splits)

lemma re_sub_call_same:
  "(\<And>g s s2. same_fields s s2 \<Longrightarrow> same_result (f g s) (f g s2)) \<Longrightarrow> same_fields st st2 \<Longrightarrow>
   same_result (re_sub_call m f src st) (re_sub_call m f src st2)"
proof (induction m f src st arbitrary: st2 rule: re_sub_call.induct)
  case (1 m f st)
  then show ?case by (simp add: same_result_def)
next
  case (2 m f c cs st)
  note step = "2.prems"(1)
  show ?case
  proof (cases "m (c # cs)")
    case None
    from "2.IH"(1) [OF None step "2.prems"(2)]
    show ?thesis using None
      by (auto simp: same_result_def split: option.splits)
  next
    case (Some gn)
    obtain g n where gn: "gn = (g, n)" by (cases gn)
    from step [OF "2.prems"(2), of g] show ?thesis
    proof (cases rule: same_result_cases)
      case 1
      then show ?thesis using Some gn by (simp add: same_result_def)
    next
      case (2 r st1 st1')
      from "2.IH"(2) [OF Some [unfolded gn] refl 2(1) refl step 2(3)]
      show ?thesis using Some gn 2(1,2)
        by (auto simp: same_result_def split: option.splits)
    qed
  qed
qed

lemma add_binding_same:
  "same_fields s s2 \<Longrightarrow> same_result (add_binding g s) (add_binding g s2)"
  by (simp add: add_binding_def same_result_def same_fields_def Let_def)

lemma history_not_read:
  "same_fields st st2 \<Longrightarrow>
   same_result (preprocess k inc fs source st) (preprocess k inc fs source st2)"
proof (induction k arbitrary: source st st2)
  case 0
  show ?case by (simp add: same_result_def)
next
  case (Suc k)
  let ?s1 = "re_sub match_version (\<lambda>g. []) source"
  have imp: "same_result (replace_import k inc fs g s) (replace_import k inc fs g s2)"
    if "same_fields s s2" for g s s2
  proof -
    let ?p = "inc (str_replace g ''minecraft:'' [])"
    have ins: "same_fields (s\<lparr>included_files := insert ?p (included_files s)\<rparr>)
                 (s2\<lparr>included_files := insert ?p (included_files s2)\<rparr>)"
      using that by (simp add: same_fields_def)
    show ?thesis
    proof (cases "fs ?p")
      case (Readable t)
      from Suc.IH [OF ins, of t] show ?thesis
        using that Readable
        by (cases rule: same_result_cases)
           (auto simp: same_result_def same_fields_def Let_def)
    qed (use that ins in \<open>auto simp: same_result_def same_fields_def Let_def\<close>)
  qed
  have st0: "same_fields (st\<lparr>included_files := {}\<rparr>) (st2\<lparr>included_files := {}\<rparr>)"
    using Suc.prems by (simp add: same_fields_def)
  have r2: "same_result
      (re_sub_call match_import (replace_import k inc fs) ?s1 (st\<lparr>included_files := {}\<rparr>))
      (re_sub_call match_import (replace_import k inc fs) ?s1 (st2\<lparr>included_files := {}\<rparr>))"
    by (rule re_sub_call_same) (rule imp, assumption, rule st0)
  from r2 show ?case
  proof (cases rule: same_result_cases)
    case 1
    then show ?thesis by (simp add: same_result_def del: replace_import.simps)
  next
    case (2 s2' a b)
    have "same_result
        (re_sub_call match_layout add_binding (re_sub match_precision (\<lambda>g. []) s2') a)
        (re_sub_call match_layout add_binding (re_sub match_precision (\<lambda>g. []) s2') b)"
      by (rule re_sub_call_same) (rule add_binding_same, assumption, rule 2(3))
    then show ?thesis using 2(1,2)
      by (cases rule: same_result_cases)
         (auto simp: same_result_def simp del: replace_import.simps)
  qed
qed

subsection \<open>Properties of the instance that every call keeps\<close>



section \<open>The claims\<close>

subsection \<open>The include set: import cycles and repeated imports\<close>



text \<open>
  C2 (fails on the code). The source imports \<^verbatim>\<open>b.glsl\<close> and \<^verbatim>\<open>c.glsl\<close>, which
  both import \<^verbatim>\<open>d.glsl\<close>. The output holds the text of \<^verbatim>\<open>d.glsl\<close> twice and no
  marker.
\<close>

theorem diamond_includes_twice:
  "preprocess 3 include_dir fs_diamond
     ''#moj_import <minecraft:b.glsl>\<newline>#moj_import <minecraft:c.glsl>'' init =
   Some (''// Import: minecraft:b.glsl\<newline>// Import: minecraft:d.glsl\<newline>float d;\<newline>\<newline>\<newline>// Import: minecraft:c.glsl\<newline>// Import: minecraft:d.glsl\<newline>float d;\<newline>\<newline>'',
         init) \<and>
   occurrences
     ''// Import: minecraft:b.glsl\<newline>// Import: minecraft:d.glsl\<newline>float d;\<newline>\<newline>\<newline>// Import: minecraft:c.glsl\<newline>// Import: minecraft:d.glsl\<newline>float d;\<newline>\<newline>''
     ''float d;'' = 2"
  by code_simp

text \<open>
  Whatever the include set holds when \<open>preprocess\<close> is called, the call starts from
  the empty set: the path that \<open>replace_import\<close> adds before the nested call is lost
  in that call.
\<close>

lemma nested_call_forgets_include_set:
  "preprocess k inc fs source (st\<lparr>included_files := S\<rparr>) =
   preprocess k inc fs source (st\<lparr>included_files := {}\<rparr>)"
  by (cases k) simp_all

text \<open>
  C3 (fails on the code). One source imports \<^verbatim>\<open>d.glsl\<close> twice. The nested call that
  expands the first import empties the set again, so the path is not in the set at the
  second import and the file is expanded a second time within one top-level call.
\<close>

theorem same_path_expanded_twice:
  "preprocess 2 include_dir fs_diamond
     ''#moj_import <minecraft:d.glsl>\<newline>#moj_import <minecraft:d.glsl>'' init =
   Some (''// Import: minecraft:d.glsl\<newline>float d;\<newline>\<newline>// Import: minecraft:d.glsl\<newline>float d;\<newline>'',
         init)"
  by code_simp

subsection \<open>The binding counter\<close>








subsection \<open>The order of the binding indices\<close>

text \<open>
  C4 (as stated, fails). The source declares the block \<^verbatim>\<open>Foo\<close> and then imports a
  file that declares the block \<^verbatim>\<open>Bar\<close>. On a fresh instance \<^verbatim>\<open>Bar\<close> gets
  binding 0 and \<^verbatim>\<open>Foo\<close> gets binding 1: the recursive call that expands the import
  numbers its blocks before the importer's own fourth pass runs.
\<close>

theorem textual_order_violated:
  "preprocess 2 include_dir fs_bar
     ''layout(std140) uniform Foo { };\<newline>#moj_import <minecraft:bar.glsl>'' init =
   Some (''layout(std140, binding=1) uniform Foo { };\<newline>// Import: minecraft:bar.glsl\<newline>layout(std140, binding=0) uniform Bar { };\<newline>'',
         \<lparr>included_files = {}, binding_counter = 2, assigned = [0, 1]\<rparr>)"
  by code_simp

lemma bar_numbered:
  "preprocess (Suc k) inc fs ''layout(std140) uniform Bar { };'' s =
   Some (''layout(std140, binding='' @ str_of_nat (binding_counter s) @ '') uniform Bar { };'',
         s\<lparr>included_files := {}, binding_counter := binding_counter s + 1,
           assigned := assigned s @ [binding_counter s]\<rparr>)"
  by (simp add: eval_simps)

text \<open>
  C4 (amended). Each call of \<open>preprocess\<close> numbers the blocks of its own text in its
  fourth pass, after its imports were expanded, and the blocks of an imported file were
  numbered before that by the recursive call that expanded it. A source that declares
  \<^verbatim>\<open>Foo\<close> and then imports a file that declares \<^verbatim>\<open>Bar\<close>, on an instance whose
  counter is \<open>c\<close>: \<^verbatim>\<open>Bar\<close> gets \<open>c\<close> and \<^verbatim>\<open>Foo\<close> gets \<open>c + 1\<close> (0 and 1 on a
  fresh instance), for every include root that holds the file.
\<close>

theorem imported_blocks_numbered_first:
  assumes "fs (inc ''bar.glsl'') = Readable ''layout(std140) uniform Bar { };''"
  shows "preprocess (Suc (Suc k)) inc fs
           ''layout(std140) uniform Foo { };\<newline>#moj_import <minecraft:bar.glsl>'' st =
         Some (''layout(std140, binding='' @ str_of_nat (binding_counter st + 1) @
               '') uniform Foo { };\<newline>// Import: minecraft:bar.glsl\<newline>layout(std140, binding='' @
               str_of_nat (binding_counter st) @ '') uniform Bar { };\<newline>'',
               st\<lparr>included_files := {}, binding_counter := binding_counter st + 2,
                 assigned := assigned st @ [binding_counter st, binding_counter st + 1]\<rparr>)"
proof -
  have imp: "replace_import (Suc k) inc fs ''minecraft:bar.glsl'' (s\<lparr>included_files := {}\<rparr>) =
        Some (''// Import: minecraft:bar.glsl\<newline>layout(std140, binding='' @
                str_of_nat (binding_counter s) @ '') uniform Bar { };\<newline>'',
              s\<lparr>included_files := {}, binding_counter := binding_counter s + 1,
                assigned := assigned s @ [binding_counter s]\<rparr>)" for s
    using assms by (simp add: bar_numbered del: preprocess.simps)
  show ?thesis
    by (simp add: eval_simps imp del: replace_import.simps)
qed

theorem imported_blocks_numbered_first_witness:
  "preprocess (Suc (Suc 0)) include_dir fs_bar
     ''layout(std140) uniform Foo { };\<newline>#moj_import <minecraft:bar.glsl>'' init =
   Some (''layout(std140, binding=1) uniform Foo { };\<newline>// Import: minecraft:bar.glsl\<newline>layout(std140, binding=0) uniform Bar { };\<newline>'',
         \<lparr>included_files = {}, binding_counter = 2, assigned = [0, 1]\<rparr>)"
proof -
  have "fs_bar (include_dir ''bar.glsl'') = Readable ''layout(std140) uniform Bar { };''"
    by (simp add: fs_bar_def include_dir_def)
  from imported_blocks_numbered_first
    [where fs = fs_bar and inc = include_dir and k = 0 and st = init, OF this]
  show ?thesis
    by (simp add: init_def str_of_nat.simps digit_char_def)
qed

subsection \<open>The version directive\<close>















text \<open>
  C10. The source holds \<^verbatim>\<open>#version\<close>, white space and digits, followed by text
  that does not start with a digit (a space and a profile token, say). When no other
  \<^verbatim>\<open>#\<close> occurs and what stands around the directive holds none of the keywords of
  the later passes, \<open>preprocess\<close> removes the directive up to its last digit and nothing
  else: the profile stays in the output.
\<close>

theorem version_strip_keeps_profile:
  assumes ws: "ws \<noteq> []" "\<forall>c\<in>set ws. is_space c"
    and ds: "ds \<noteq> []" "\<forall>c\<in>set ds. is_digit c"
    and rest: "rest = [] \<or> \<not> is_digit (hd rest)"
    and hash: "CHR ''#'' \<notin> set pre" "CHR ''#'' \<notin> set rest"
    and kw: "keyword_free (pre @ rest)"
  shows "preprocess (Suc k) inc fs (pre @ ''#version'' @ ws @ ds @ rest) st =
         Some (pre @ rest, st\<lparr>included_files := {}\<rparr>)"
proof -
  let ?D = "''#version'' @ ws @ ds"
  have m: "match_version (?D @ rest) = Some ([], length ?D)"
    using match_version_directive [OF ws ds rest] by simp
  have "re_sub match_version (\<lambda>g. []) (pre @ ?D @ rest) =
        pre @ re_sub match_version (\<lambda>g. []) (?D @ rest)"
    by (rule re_sub_skip_chars) (use hash(1) match_version_first in metis)
  also have "re_sub match_version (\<lambda>g. []) (?D @ rest) =
        [] @ re_sub match_version (\<lambda>g. []) rest"
    by (rule re_sub_match [where m = match_version and g = "[]" and repl = "\<lambda>g. []"
          and pre = ?D and rest = rest, OF m]) simp
  also have "re_sub match_version (\<lambda>g. []) rest = rest"
    by (rule re_sub_no_match) (rule no_hash_no_version [OF hash(2)])
  finally have v: "re_sub match_version (\<lambda>g. []) (pre @ ''#version'' @ ws @ ds @ rest) =
      pre @ rest"
    by simp
  have i: "no_match match_import (pre @ rest)"
    by (rule no_hash_no_import) (use hash in simp)
  show ?thesis
    using v i keyword_free_no_match [OF kw]
    by (simp add: re_sub_no_match re_sub_call_no_match
        del: re_sub.simps re_sub_call.simps no_match.simps)
qed

theorem version_strip_keeps_profile_witness:
  "preprocess (Suc 0) include_dir no_files
     ''// basic shader\<newline>#version 150 core\<newline>void main() { }'' init =
   Some (''// basic shader\<newline> core\<newline>void main() { }'', init)"
proof -
  have kw: "keyword_free (''// basic shader\<newline>'' @ '' core\<newline>void main() { }'')"
    by code_simp
  have "preprocess (Suc 0) include_dir no_files
          (''// basic shader\<newline>'' @ ''#version'' @ '' '' @ ''150'' @ '' core\<newline>void main() { }'')
          init =
        Some (''// basic shader\<newline>'' @ '' core\<newline>void main() { }'',
              init\<lparr>included_files := {}\<rparr>)"
    by (rule version_strip_keeps_profile [OF _ _ _ _ _ _ _ kw]) (simp_all add: class_defs)
  then show ?thesis by (simp add: init_def)
qed

subsection \<open>Imports that are missing or cannot be read\<close>




subsection \<open>Sources without directives, and a second run\<close>

text \<open>
  C8. A source without the tokens \<^verbatim>\<open>#moj_import\<close>, \<^verbatim>\<open>#version\<close> and
  \<^verbatim>\<open>precision\<close>, without \<^verbatim>\<open>layout(std140)\<close> followed by white space and
  \<^verbatim>\<open>uniform\<close>, and without \<^verbatim>\<open>uniform\<close> followed by white space and
  \<^verbatim>\<open>sampler2D\<close>, is returned unchanged by \<open>preprocess\<close>, whatever the include
  root holds. (The call still empties the include set of the instance.)
\<close>

theorem identity_without_tokens:
  assumes "\<not> contains source ''#moj_import''"
    and "\<not> contains source ''#version''"
    and "\<not> contains source ''precision''"
    and "\<not> contains_tokens source ''layout(std140)'' ''uniform''"
    and "\<not> contains_tokens source ''uniform'' ''sampler2D''"
  shows "preprocess (Suc k) inc fs source st = Some (source, st\<lparr>included_files := {}\<rparr>)"
  using assms
  by (intro preprocess_no_match no_match_version no_match_import no_match_precision
      no_match_layout no_match_sampler)

theorem identity_without_tokens_witness:
  "\<not> contains ''void main() { gl_FragColor = color; }'' ''#moj_import'' \<and>
   \<not> contains ''void main() { gl_FragColor = color; }'' ''#version'' \<and>
   \<not> contains ''void main() { gl_FragColor = color; }'' ''precision'' \<and>
   \<not> contains_tokens ''void main() { gl_FragColor = color; }'' ''layout(std140)'' ''uniform'' \<and>
   \<not> contains_tokens ''void main() { gl_FragColor = color; }'' ''uniform'' ''sampler2D'' \<and>
   preprocess (Suc 0) include_dir no_files ''void main() { gl_FragColor = color; }'' init =
     Some (''void main() { gl_FragColor = color; }'', init)"
proof -
  let ?src = "''void main() { gl_FragColor = color; }''"
  have h1: "\<not> contains ?src ''#moj_import''" by code_simp
  have h2: "\<not> contains ?src ''#version''" by code_simp
  have h3: "\<not> contains ?src ''precision''" by code_simp
  have h4: "\<not> contains_tokens ?src ''layout(std140)'' ''uniform''" by code_simp
  have h5: "\<not> contains_tokens ?src ''uniform'' ''sampler2D''" by code_simp
  have "preprocess (Suc 0) include_dir no_files ?src init =
        Some (?src, init\<lparr>included_files := {}\<rparr>)"
    by (rule identity_without_tokens [OF h1 h2 h3 h4 h5])
  then show ?thesis using h1 h2 h3 h4 h5 by (simp add: init_def)
qed




end
